theory Spec2Isabelle
  imports Main
begin

section \<open>Panics and Go error values\<close>

text \<open>
  A Go panic aborts the call; it is the left summand of every result below.
  The panics of this package carry a message built from one string; the constructor
  keeps which panic it is and that string.
  \<^item> \<open>PathMustStart p\<close>: \<^verbatim>\<open>panic("path must start with '/' in path '" + p + "'")\<close> of validatePattern;
  \<^item> \<open>PathMustBegin p\<close>: \<^verbatim>\<open>panicl("path must begin with '/' in path '" + p + "'")\<close> of prevalidation;
  \<^item> \<open>InvalidHTTPMethod m\<close>: the panicl of prevalidation for a method outside allowedHTTPMethods;
  \<^item> \<open>UnknownNamedMiddlewares n\<close>: \<^verbatim>\<open>panic("Unknow named middlewares: " + n)\<close> of UseNamed;
  \<^item> \<open>NilDereference\<close>: the runtime panic of a method call through a nil pointer or a nil
    interface value.
\<close>

datatype error =
    PathMustStart string
  | PathMustBegin string
  | InvalidHTTPMethod string
  | UnknownNamedMiddlewares string
  | NilDereference

text \<open>Values of Go's \<^verbatim>\<open>error\<close> interface that the context returns; \<open>None\<close> is \<^verbatim>\<open>nil\<close>.\<close>

datatype go_error =
    ErrInvalidRedirectStatusCode
  | ExternalError string

section \<open>The request context (src/context.go)\<close>

record parameter =
  key :: string
  val :: string

text \<open>
  \<^verbatim>\<open>http.ResponseWriter\<close> is an interface implemented outside this package. A writer is
  modelled by the calls it has received, in order. The helpers of \<^verbatim>\<open>net/http\<close> that the
  context hands its writer to commit the status themselves: the \<^verbatim>\<open>WriteHeader\<close> call they
  make on the writer is recorded as such. \<open>HttpRedirect url code\<close> stands for the headers
  and the body that \<^verbatim>\<open>http.Redirect\<close> derives from the URL and the request,
  \<open>HttpServeFile path\<close> for those of \<^verbatim>\<open>http.ServeFile\<close>.
\<close>

datatype rw_event =
    HeaderSet string string
  | WriteHeader int
  | Write string
  | HttpRedirect string int
  | HttpServeFile string

text \<open>Pointers and interface values that the context only stores are opaque handles; \<open>None\<close> is nil.\<close>

type_synonym handle = nat

record ctx =
  ResponseWriter :: "rw_event list option"
  parent :: "handle option"
  req :: "handle option"
  params :: "parameter list"
  code :: int
  statusWritten :: bool
  tags :: "string list"
  searchHistory :: "string list"

definition newContextWithResReq :: "handle option \<Rightarrow> rw_event list option \<Rightarrow> handle option \<Rightarrow> ctx" where
  "newContextWithResReq c w r =
     \<lparr> ResponseWriter = w, parent = c, req = r, params = [], code = 0,
       statusWritten = False, tags = [''''], searchHistory = [] \<rparr>"

definition AddParam :: "ctx \<Rightarrow> string \<Rightarrow> string \<Rightarrow> ctx" where
  "AddParam c k v = c\<lparr>params := params c @ [\<lparr>key = k, val = v\<rparr>]\<rparr>"

text \<open>The \<^verbatim>\<open>for _, p := range c.params\<close> loop of ParamOk, from the front of the slice.\<close>

fun ParamOk_loop :: "parameter list \<Rightarrow> string \<Rightarrow> string \<times> bool" where
  "ParamOk_loop [] k = ('''', False)"
| "ParamOk_loop (p # ps) k = (if key p = k then (val p, True) else ParamOk_loop ps k)"

definition ParamOk :: "ctx \<Rightarrow> string \<Rightarrow> string \<times> bool" where
  "ParamOk c k = ParamOk_loop (params c) k"

definition Param :: "ctx \<Rightarrow> string \<Rightarrow> string" where
  "Param c k = fst (ParamOk c k)"

definition WithStatus :: "ctx \<Rightarrow> int \<Rightarrow> ctx" where
  "WithStatus c n = c\<lparr>code := n\<rparr>"














text \<open>
  \<^verbatim>\<open>http.Redirect(c, c.Request(), urlStr, c.code)\<close> reads the request (a nil request
  panics), sets the headers on the writer and calls \<^verbatim>\<open>WriteHeader(code)\<close> on it. The
  context's flag is not touched.
\<close>

definition Redirect :: "ctx \<Rightarrow> string \<Rightarrow> error + (go_error option \<times> ctx)" where
  "Redirect c urlStr =
     (if code c < 300 \<or> code c > 308 then Inr (Some ErrInvalidRedirectStatusCode, c)
      else
        (case req c of
           None \<Rightarrow> Inl NilDereference
         | Some r \<Rightarrow>
             (case ResponseWriter c of
                None \<Rightarrow> Inl NilDereference
              | Some w \<Rightarrow>
                  Inr (None, c\<lparr>ResponseWriter :=
                               Some (w @ [HttpRedirect urlStr (code c), WriteHeader (code c)])\<rparr>))))"



definition Reset :: "ctx \<Rightarrow> ctx" where
  "Reset c = c\<lparr> params := take 0 (params c), parent := None, req := None,
               ResponseWriter := None, code := 0, statusWritten := False,
               searchHistory := take 0 (searchHistory c) \<rparr>"









section \<open>Handlers and middlewares\<close>

text \<open>
  A handler acts on the world it serves into (the response, a log, any observable
  side effect): it is a function on that world \<open>'w\<close>. A middleware is a decorator,
  from the next handler to a handler.
\<close>

type_synonym 'w Handler = "'w \<Rightarrow> 'w"
type_synonym 'w Middleware = "'w Handler \<Rightarrow> 'w Handler"

text \<open>
  Modelled from the spec: \<^verbatim>\<open>Middlewares.BuildHandler\<close>, called by buildMiddlewares and
  defined in a file that is not part of the sources. Section 4.2: the handler is wrapped
  with the node's own middleware sequence so that the first-registered middleware is the
  outermost one and runs first.
\<close>

definition BuildHandler :: "'w Middleware list \<Rightarrow> 'w Handler \<Rightarrow> 'w Handler" where
  "BuildHandler mws handler = foldr (\<lambda>mw h. mw h) mws handler"

text \<open>
  Observable handlers: the world is the list of names that ran so far. \<open>tracer n\<close> is a
  middleware that records \<open>n\<close> and then calls the next handler; \<open>emit n\<close> is a terminal
  handler that records \<open>n\<close>.
\<close>

definition tracer :: "string \<Rightarrow> string list Middleware" where
  "tracer n next = (\<lambda>log. next (log @ [n]))"

definition emit :: "string \<Rightarrow> string list Handler" where
  "emit n = (\<lambda>log. log @ [n])"

section \<open>The matcher adapter (src/unnamed/part_000)\<close>

text \<open>
  The router calls its matcher through the RegisterMatcher interface. The constructor the
  router names, \<^verbatim>\<open>newRadixMatcher\<close>, is not part of the sources; the implementation of
  the interface that is, \<^verbatim>\<open>pathMatcher\<close>, is the one embedded here.
\<close>

text \<open>
  Modelled from the spec: \<^verbatim>\<open>allowedHTTPMethods\<close> and the method constants, declared in a
  file that is not part of the sources; the fixed set of supported HTTP verbs, the nine
  verbs that \<^verbatim>\<open>methodsHandlers\<close> switches on.
\<close>

definition allowedHTTPMethods :: "string list" where
  "allowedHTTPMethods =
     [''GET'', ''HEAD'', ''POST'', ''PUT'', ''DELETE'', ''TRACE'', ''OPTIONS'', ''CONNECT'', ''PATCH'']"

fun isInStringSlice :: "string list \<Rightarrow> string \<Rightarrow> bool" where
  "isInStringSlice [] expected = False"
| "isInStringSlice (v # slice) expected = (if v = expected then True else isInStringSlice slice expected)"

definition prevalidation :: "string \<Rightarrow> string \<Rightarrow> error + unit" where
  "prevalidation method pat =
     (if length pat = 0 \<or> pat ! 0 \<noteq> CHR ''/'' then Inl (PathMustBegin pat)
      else if \<not> isInStringSlice allowedHTTPMethods method then Inl (InvalidHTTPMethod method)
      else Inr ())"

text \<open>
  Modelled from the spec: the pattern matcher behind \<^verbatim>\<open>matcher.Set\<close>, an external
  collaborator that stores the mapping it is given. It is modelled by the calls of
  \<^verbatim>\<open>Set(pattern, handler, tags)\<close> it has received, in order.
\<close>

type_synonym 'w pathMatcher = "(string \<times> 'w Handler \<times> string list) list"

section \<open>The router (src/router.go)\<close>

record 'w registeredHandler =
  rh_method :: string
  rh_pattern :: string
  rh_handler :: "'w Handler"

text \<open>
  Routers point to their parent and share one matcher, and the methods update them in
  place: a router is a cell of a store, \<open>router\<close> holds the address of the parent
  (its own address at the root) and \<open>rm\<close> the address of the matcher. The fields
  \<^verbatim>\<open>tree\<close>, \<^verbatim>\<open>handler\<close>, \<^verbatim>\<open>notFoundHandler\<close> and \<^verbatim>\<open>pool\<close> are not read by
  the methods below.
\<close>

record 'w Router =
  rm :: nat
  router :: nat
  middlewares :: "'w Middleware list"
  pattern :: string
  registeredHandlers :: "'w registeredHandler list"
  namedMiddlewares :: "string \<rightharpoonup> 'w Middleware list"

record 'w store =
  routers :: "'w Router list"
  matchers :: "'w pathMatcher list"

definition empty_store :: "'w store" where
  "empty_store = \<lparr> routers = [], matchers = [] \<rparr>"

text \<open>Following a pointer: an address outside the store is a nil pointer.\<close>

definition deref :: "'w store \<Rightarrow> nat \<Rightarrow> 'w Router option" where
  "deref s a = (if a < length (routers s) then Some (routers s ! a) else None)"

definition set_router :: "'w store \<Rightarrow> nat \<Rightarrow> 'w Router \<Rightarrow> 'w store" where
  "set_router s a R = s\<lparr>routers := (routers s)[a := R]\<rparr>"

definition validatePattern :: "string \<Rightarrow> error + unit" where
  "validatePattern pat =
     (if length pat > 0 \<and> pat ! 0 \<noteq> CHR ''/'' then Inl (PathMustStart pat) else Inr ())"

definition isRoot :: "nat \<Rightarrow> 'w Router \<Rightarrow> bool" where
  "isRoot r R = (router R = r)"

definition Register :: "'w store \<Rightarrow> nat \<Rightarrow> string \<Rightarrow> string \<Rightarrow> 'w Handler \<Rightarrow> error + 'w store" where
  "Register s d method pat handler =
     (if d < length (matchers s) then
        (case prevalidation method pat of
           Inl e \<Rightarrow> Inl e
         | Inr _ \<Rightarrow> Inr (s\<lparr>matchers := (matchers s)[d := matchers s ! d @ [(pat, handler, [method])]]\<rparr>))
      else Inl NilDereference)"

definition Use :: "'w store \<Rightarrow> nat \<Rightarrow> 'w Middleware list \<Rightarrow> error + 'w store" where
  "Use s r mws =
     (case deref s r of
        None \<Rightarrow> Inl NilDereference
      | Some R \<Rightarrow> Inr (set_router s r (R\<lparr>middlewares := middlewares R @ mws\<rparr>)))"

definition New :: "'w store \<Rightarrow> 'w Middleware list \<Rightarrow> error + ('w store \<times> nat)" where
  "New s mws =
     (let r = length (routers s);
          R = \<lparr> rm = length (matchers s), router = r, middlewares = [], pattern = [],
                registeredHandlers = [], namedMiddlewares = Map.empty \<rparr>;
          s1 = s\<lparr>routers := routers s @ [R], matchers := matchers s @ [[]]\<rparr>
      in case Use s1 r mws of Inl e \<Rightarrow> Inl e | Inr s2 \<Rightarrow> Inr (s2, r))"

definition Group :: "'w store \<Rightarrow> nat \<Rightarrow> string \<Rightarrow> 'w Middleware list \<Rightarrow> error + ('w store \<times> nat)" where
  "Group s r pat mws =
     (case deref s r of
        None \<Rightarrow> Inl NilDereference
      | Some R \<Rightarrow>
          (let p = (if pat = ''/'' \<and> pattern R \<noteq> ''/'' then pattern R else pattern R @ pat)
           in case validatePattern p of
                Inl e \<Rightarrow> Inl e
              | Inr _ \<Rightarrow>
                  (let nr = length (routers s);
                       NR = \<lparr> rm = rm R, router = r, middlewares = [], pattern = p,
                              registeredHandlers = [], namedMiddlewares = Map.empty \<rparr>
                   in case Use (s\<lparr>routers := routers s @ [NR]\<rparr>) nr mws of
                        Inl e \<Rightarrow> Inl e
                      | Inr s' \<Rightarrow> Inr (s', nr))))"

text \<open>
  \<open>buildMiddlewares\<close> climbs the parent pointers until a router is its own parent. On a
  store whose pointers never reach such a router it does not return: the result is
  \<open>None\<close> then.
\<close>

partial_function (option) buildMiddlewares ::
  "'w store \<Rightarrow> nat \<Rightarrow> 'w Handler \<Rightarrow> (error + 'w Handler) option" where
  "buildMiddlewares s r handler =
     (case deref s r of
        None \<Rightarrow> Some (Inl NilDereference)
      | Some R \<Rightarrow>
          (let h = BuildHandler (middlewares R) handler
           in if \<not> isRoot r R then buildMiddlewares s (router R) h else Some (Inr h)))"

definition Handle :: "'w store \<Rightarrow> nat \<Rightarrow> string \<Rightarrow> string \<Rightarrow> 'w Handler \<Rightarrow> (error + 'w store) option" where
  "Handle s r method pat handler =
     (case validatePattern pat of
        Inl e \<Rightarrow> Some (Inl e)
      | Inr _ \<Rightarrow>
          (case deref s r of
             None \<Rightarrow> Some (Inl NilDereference)
           | Some R \<Rightarrow>
               (let p = (if \<not> isRoot r R \<and> pat = ''/'' then pattern R else pattern R @ pat)
                in case buildMiddlewares s r handler of
                     None \<Rightarrow> None
                   | Some (Inl e) \<Rightarrow> Some (Inl e)
                   | Some (Inr built) \<Rightarrow>
                       (let s1 = set_router s r
                                   (R\<lparr>registeredHandlers := registeredHandlers R @
                                        [\<lparr>rh_method = method, rh_pattern = pat, rh_handler = built\<rparr>]\<rparr>)
                        in case deref s1 (router R) of
                             None \<Rightarrow> Some (Inl NilDereference)
                           | Some P \<Rightarrow> Some (Register s1 (rm P) method p built)))))"

text \<open>The \<^verbatim>\<open>range router.registeredHandlers\<close> loop of Mount.\<close>

fun Mount_loop :: "'w store \<Rightarrow> nat \<Rightarrow> 'w registeredHandler list \<Rightarrow> (error + 'w store) option" where
  "Mount_loop s sub [] = Some (Inr s)"
| "Mount_loop s sub (rh # rhs) =
     (case Handle s sub (rh_method rh) (rh_pattern rh) (rh_handler rh) of
        None \<Rightarrow> None
      | Some (Inl e) \<Rightarrow> Some (Inl e)
      | Some (Inr s') \<Rightarrow> Mount_loop s' sub rhs)"

definition Mount :: "'w store \<Rightarrow> nat \<Rightarrow> string \<Rightarrow> nat \<Rightarrow> 'w Middleware list \<Rightarrow> (error + 'w store) option" where
  "Mount s r pat other mws =
     (case Group s r pat mws of
        Inl e \<Rightarrow> Some (Inl e)
      | Inr (s1, sub) \<Rightarrow>
          (case deref s1 other of
             None \<Rightarrow> Some (Inl NilDereference)
           | Some R \<Rightarrow> Mount_loop s1 sub (registeredHandlers R)))"

definition Define :: "'w store \<Rightarrow> nat \<Rightarrow> string \<Rightarrow> 'w Middleware list \<Rightarrow> error + 'w store" where
  "Define s r name mws =
     (case deref s r of
        None \<Rightarrow> Inl NilDereference
      | Some R \<Rightarrow>
          Inr (set_router s r
                 (R\<lparr>namedMiddlewares := (namedMiddlewares R)
                      (name \<mapsto> (case namedMiddlewares R name of None \<Rightarrow> [] | Some l \<Rightarrow> l) @ mws)\<rparr>)))"

definition hasNamed :: "'w Router \<Rightarrow> string \<Rightarrow> bool" where
  "hasNamed R name = (case namedMiddlewares R name of None \<Rightarrow> False | Some _ \<Rightarrow> True)"

partial_function (option) UseNamed :: "'w store \<Rightarrow> nat \<Rightarrow> string \<Rightarrow> (error + 'w store) option" where
  "UseNamed s r name =
     (case deref s r of
        None \<Rightarrow> Some (Inl NilDereference)
      | Some R \<Rightarrow>
          (if hasNamed R name then
             Some (Use s r (case namedMiddlewares R name of None \<Rightarrow> [] | Some l \<Rightarrow> l))
           else if \<not> isRoot r R then UseNamed s (router R) name
           else Some (Inl (UnknownNamedMiddlewares name))))"

text \<open>
  \<open>ancestry s r as\<close>: following the parent pointers from \<open>r\<close> visits the routers \<open>as\<close>,
  \<open>r\<close> first, and ends at a root.
\<close>

inductive ancestry :: "'w store \<Rightarrow> nat \<Rightarrow> nat list \<Rightarrow> bool" for s :: "'w store" where
  at_root: "deref s r = Some R \<Longrightarrow> isRoot r R \<Longrightarrow> ancestry s r [r]"
| at_child: "deref s r = Some R \<Longrightarrow> \<not> isRoot r R \<Longrightarrow> ancestry s (router R) as \<Longrightarrow> ancestry s r (r # as)"

text \<open>The middlewares that wrap a handler registered at the start of the path \<open>as\<close>, outermost first.\<close>

definition wrapping :: "'w store \<Rightarrow> nat list \<Rightarrow> 'w Middleware list" where
  "wrapping s as = concat (map (\<lambda>a. middlewares (routers s ! a)) (rev as))"

section \<open>Setup scripts\<close>

text \<open>
  A setup script is the sequence of calls a program makes on its routers before it
  serves; routers are named by their addresses, which \<open>New\<close> and \<open>Group\<close> hand out in
  order from 0. The script stops at the first panic.
\<close>

datatype 'w setup_call =
    CallNew "'w Middleware list"
  | CallGroup nat string "'w Middleware list"
  | CallUse nat "'w Middleware list"
  | CallHandle nat string string "'w Handler"
  | CallMount nat string nat "'w Middleware list"
  | CallDefine nat string "'w Middleware list"
  | CallUseNamed nat string

fun call :: "'w store \<Rightarrow> 'w setup_call \<Rightarrow> (error + 'w store) option" where
  "call s (CallNew mws) = (case New s mws of Inl e \<Rightarrow> Some (Inl e) | Inr (s', _) \<Rightarrow> Some (Inr s'))"
| "call s (CallGroup r pat mws) = (case Group s r pat mws of Inl e \<Rightarrow> Some (Inl e) | Inr (s', _) \<Rightarrow> Some (Inr s'))"
| "call s (CallUse r mws) = Some (Use s r mws)"
| "call s (CallHandle r method pat h) = Handle s r method pat h"
| "call s (CallMount r pat other mws) = Mount s r pat other mws"
| "call s (CallDefine r name mws) = Some (Define s r name mws)"
| "call s (CallUseNamed r name) = UseNamed s r name"

fun run_script :: "'w store \<Rightarrow> 'w setup_call list \<Rightarrow> (error + 'w store) option" where
  "run_script s [] = Some (Inr s)"
| "run_script s (c # cs) =
     (case call s c of
        None \<Rightarrow> None
      | Some (Inl e) \<Rightarrow> Some (Inl e)
      | Some (Inr s') \<Rightarrow> run_script s' cs)"

text \<open>
  What a test observes of the store a script leaves: the resolved pattern of every
  router; for every router, the trace each of its middlewares leaves around a next
  handler that does nothing; the routes a matcher holds, each with the trace its
  handler leaves when it serves a request.
\<close>

definition observe :: "('w store \<Rightarrow> 'a) \<Rightarrow> (error + 'w store) option \<Rightarrow> (error + 'a) option" where
  "observe f r = (case r of None \<Rightarrow> None | Some (Inl e) \<Rightarrow> Some (Inl e) | Some (Inr s) \<Rightarrow> Some (Inr (f s)))"

definition patterns :: "'w store \<Rightarrow> string list" where
  "patterns s = map pattern (routers s)"

definition middleware_traces :: "string list store \<Rightarrow> string list list list" where
  "middleware_traces s = map (\<lambda>R. map (\<lambda>mw. mw id []) (middlewares R)) (routers s)"

definition routes :: "nat \<Rightarrow> string list store \<Rightarrow> (string list \<times> string \<times> string list) list" where
  "routes d s = map (\<lambda>(pat, h, tags). (tags, pat, h [])) (matchers s ! d)"

definition the_store :: "(error + 'w store) option \<Rightarrow> 'w store" where
  "the_store r = (case r of Some (Inr s) \<Rightarrow> s | _ \<Rightarrow> empty_store)"

text \<open>
  Two checks a test can compute: whether a script ran to its end, and the path from a
  router to its root, found by following at most \<open>n\<close> parent pointers.
\<close>

definition succeeded :: "(error + 'a) option \<Rightarrow> bool" where
  "succeeded r = (case r of Some (Inr _) \<Rightarrow> True | _ \<Rightarrow> False)"

fun climb :: "nat \<Rightarrow> 'w store \<Rightarrow> nat \<Rightarrow> nat list option" where
  "climb 0 s r = None"
| "climb (Suc n) s r =
     (case deref s r of
        None \<Rightarrow> None
      | Some R \<Rightarrow>
          if isRoot r R then Some [r]
          else (case climb n s (router R) of None \<Rightarrow> None | Some as \<Rightarrow> Some (r # as)))"

text \<open>
  The shape of the stores that \<open>New\<close> and \<open>Group\<close> build: a parent was allocated
  before its child, and a root is its own parent.
\<close>

definition parents_below :: "'w store \<Rightarrow> bool" where
  "parents_below s = (\<forall>r < length (routers s). router (routers s ! r) \<le> r)"

declare buildMiddlewares.simps [code]
declare UseNamed.simps [code]



section \<open>The context: lookup, reset, redirect\<close>

lemma ParamOk_loop_absent: "\<forall>p \<in> set ps. key p \<noteq> k \<Longrightarrow> ParamOk_loop ps k = ('''', False)"
  by (induction ps) auto

lemma ParamOk_loop_unfound: "\<not> snd (ParamOk_loop ps k) \<Longrightarrow> ParamOk_loop ps k = ('''', False)"
  by (induction ps) (auto split: if_splits)

lemma ParamOk_loop_first:
  "i < length ps \<Longrightarrow> key (ps ! i) = k \<Longrightarrow> \<forall>j<i. key (ps ! j) \<noteq> k \<Longrightarrow>
   ParamOk_loop ps k = (val (ps ! i), True)"
proof (induction ps arbitrary: i)
  case Nil
  then show ?case by simp
next
  case (Cons p ps)
  show ?case
  proof (cases i)
    case 0
    with Cons.prems show ?thesis by simp
  next
    case (Suc n)
    from Cons.prems Suc have "key p \<noteq> k" by auto
    moreover have "ParamOk_loop ps k = (val (ps ! n), True)"
    proof (rule Cons.IH)
      show "n < length ps" using Cons.prems Suc by simp
      show "key (ps ! n) = k" using Cons.prems Suc by simp
      show "\<forall>j<n. key (ps ! j) \<noteq> k"
      proof (intro allI impI)
        fix j assume "j < n"
        then have "Suc j < i" using Suc by simp
        with Cons.prems(3) have "key ((p # ps) ! Suc j) \<noteq> k" by blast
        then show "key (ps ! j) \<noteq> k" by simp
      qed
    qed
    ultimately show ?thesis using Suc by simp
  qed
qed

lemma ParamOk_loop_append:
  "ParamOk_loop (ps @ qs) k = (if snd (ParamOk_loop ps k) then ParamOk_loop ps k else ParamOk_loop qs k)"
  by (induction ps) auto

text \<open>
  C5, as the code has it. ParamOk scans the parameter list from the front and returns at
  the first pair whose key matches: under duplicate keys the value of the earliest
  inserted pair is returned with found = true (first write wins), and adding a further
  pair for a key that is already present does not change what the lookup of that key
  returns. For a key with no pair the result is the empty string and found = false.
\<close>

theorem ParamOk_first_write_wins:
  "(\<forall>i < length (params c). key (params c ! i) = k \<longrightarrow> (\<forall>j<i. key (params c ! j) \<noteq> k) \<longrightarrow>
       ParamOk c k = (val (params c ! i), True))
   \<and> ((\<forall>p \<in> set (params c). key p \<noteq> k) \<longrightarrow> ParamOk c k = ('''', False))
   \<and> ParamOk (AddParam c k v) k = (if snd (ParamOk c k) then ParamOk c k else (v, True))
   \<and> (k' \<noteq> k \<longrightarrow> ParamOk (AddParam c k' v) k = ParamOk c k)"
  unfolding ParamOk_def AddParam_def
  by (auto simp: ParamOk_loop_absent ParamOk_loop_first ParamOk_loop_append ParamOk_loop_unfound)

theorem ParamOk_first_write_wins_witness:
  "ParamOk (AddParam (newContextWithResReq None None None) ''id'' ''42'') ''id'' = (''42'', True)
   \<and> ParamOk (AddParam (newContextWithResReq None None None) ''id'' ''42'') ''name'' = ('''', False)
   \<and> ParamOk (AddParam (AddParam (newContextWithResReq None None None) ''id'' ''42'') ''id'' ''7'') ''id'' = (''42'', True)"
  using ParamOk_first_write_wins [of "AddParam (newContextWithResReq None None None) ''id'' ''42''" "''id''" "''7''" "''x''"]
        ParamOk_first_write_wins [of "AddParam (newContextWithResReq None None None) ''id'' ''42''" "''name''" "''7''" "''x''"]
  by (simp add: AddParam_def newContextWithResReq_def ParamOk_def)

text \<open>
  C5 as stated fails: after the pairs (id, 1) and then (id, 2) were added, the lookup of
  id returns 1, the value inserted first, and not 2, the value inserted most recently.
\<close>

theorem ParamOk_last_write_counterexample:
  "ParamOk (AddParam (AddParam (newContextWithResReq None None None) ''id'' ''1'') ''id'' ''2'') ''id'' = (''1'', True)
   \<and> ParamOk (AddParam (AddParam (newContextWithResReq None None None) ''id'' ''1'') ''id'' ''2'') ''id'' \<noteq> (''2'', True)"
  by (simp add: AddParam_def newContextWithResReq_def ParamOk_def)

text \<open>
  C7. Whatever state a context is in, after Reset its parameter list is empty, its
  status-written flag is false, the staged status code is 0, and the parent link, the
  request and the response writer are nil; the search history is empty too.
\<close>

theorem Reset_clears:
  "params (Reset c) = [] \<and> statusWritten (Reset c) = False \<and> code (Reset c) = 0
   \<and> parent (Reset c) = None \<and> req (Reset c) = None \<and> ResponseWriter (Reset c) = None
   \<and> searchHistory (Reset c) = []"
  by (simp add: Reset_def)

text \<open>
  C10. When the staged status code is below 300 or above 308, Redirect returns
  ErrInvalidRedirectStatusCode and leaves the context, and with it the response writer,
  as it was: no redirect is performed. A context fresh from the constructor or from
  Reset has code 0, so Redirect fails on it; a Redirect that returns nil had a code
  from 300 to 308.
\<close>

theorem Redirect_invalid_status:
  "(code c < 300 \<or> code c > 308 \<longrightarrow> Redirect c u = Inr (Some ErrInvalidRedirectStatusCode, c))
   \<and> Redirect (Reset c) u = Inr (Some ErrInvalidRedirectStatusCode, Reset c)
   \<and> Redirect (newContextWithResReq p w r) u =
       Inr (Some ErrInvalidRedirectStatusCode, newContextWithResReq p w r)
   \<and> (\<forall>c'. Redirect c u = Inr (None, c') \<longrightarrow> 300 \<le> code c \<and> code c \<le> 308)"
  by (auto simp: Redirect_def Reset_def newContextWithResReq_def split: option.splits if_splits)

theorem Redirect_invalid_status_witness:
  "Redirect (WithStatus (newContextWithResReq None (Some []) (Some 0)) 200) ''/login''
     = Inr (Some ErrInvalidRedirectStatusCode, WithStatus (newContextWithResReq None (Some []) (Some 0)) 200)
   \<and> Redirect (WithStatus (newContextWithResReq None (Some []) (Some 0)) 309) ''/login''
     = Inr (Some ErrInvalidRedirectStatusCode, WithStatus (newContextWithResReq None (Some []) (Some 0)) 309)
   \<and> code (WithStatus (newContextWithResReq None (Some []) (Some 0)) 302) = 302
   \<and> Redirect (WithStatus (newContextWithResReq None (Some []) (Some 0)) 302) ''/login''
     = Inr (None, (WithStatus (newContextWithResReq None (Some []) (Some 0)) 302)
                    \<lparr>ResponseWriter := Some [HttpRedirect ''/login'' 302, WriteHeader 302]\<rparr>)"
  using Redirect_invalid_status [of "WithStatus (newContextWithResReq None (Some []) (Some 0)) 200" "''/login''" None None None]
        Redirect_invalid_status [of "WithStatus (newContextWithResReq None (Some []) (Some 0)) 309" "''/login''" None None None]
        Redirect_invalid_status [of "WithStatus (newContextWithResReq None (Some []) (Some 0)) 302" "''/login''" None None None]
  by (simp add: WithStatus_def newContextWithResReq_def Redirect_def)

section \<open>The context: the status-written flag\<close>


























section \<open>The router tree: paths to the root\<close>

lemma deref_Some_iff: "deref s a = Some R \<longleftrightarrow> a < length (routers s) \<and> routers s ! a = R"
  by (auto simp: deref_def)

lemma BuildHandler_append: "BuildHandler (xs @ ys) h = BuildHandler xs (BuildHandler ys h)"
  by (simp add: BuildHandler_def)

lemma BuildHandler_tracer: "BuildHandler (map tracer ns) h log = h (log @ ns)"
  by (induction ns arbitrary: log) (simp_all add: BuildHandler_def tracer_def)

lemma concat_map_tracer:
  "\<forall>a \<in> set xs. f a = map g (n a) \<Longrightarrow> concat (map f xs) = map g (concat (map n xs))"
  by (induction xs) simp_all

lemma wrapping_Cons: "wrapping s (a # as) = wrapping s as @ middlewares (routers s ! a)"
  by (simp add: wrapping_def)

lemma buildMiddlewares_ancestry:
  "ancestry s r as \<Longrightarrow> buildMiddlewares s r h = Some (Inr (BuildHandler (wrapping s as) h))"
proof (induction arbitrary: h rule: ancestry.induct)
  case (at_root r R)
  then have "routers s ! r = R" by (simp add: deref_Some_iff)
  then show ?case using at_root
    by (subst buildMiddlewares.simps) (simp add: wrapping_def)
next
  case (at_child r R as)
  then have R: "routers s ! r = R" by (simp add: deref_Some_iff)
  have "buildMiddlewares s r h = buildMiddlewares s (router R) (BuildHandler (middlewares R) h)"
    using at_child.hyps by (subst buildMiddlewares.simps) simp
  then show ?case using at_child.IH R by (simp add: wrapping_Cons BuildHandler_append)
qed

lemma ancestry_hd: "ancestry s r as \<Longrightarrow> \<exists>bs. as = r # bs"
  by (induction rule: ancestry.induct) auto

lemma ancestry_bound: "ancestry s r as \<Longrightarrow> \<forall>a \<in> set as. a < length (routers s)"
  by (induction rule: ancestry.induct) (auto simp: deref_Some_iff)

lemma ancestry_deref: "ancestry s r as \<Longrightarrow> deref s r = Some (routers s ! r)"
  using ancestry_hd[of s r as] ancestry_bound[of s r as] by (auto simp: deref_def)

lemma ancestry_transfer:
  "ancestry s r as \<Longrightarrow>
   \<forall>a \<in> set as. a < length (routers t) \<and> router (routers t ! a) = router (routers s ! a) \<Longrightarrow>
   ancestry t r as"
proof (induction rule: ancestry.induct)
  case (at_root r R)
  then have "deref t r = Some (routers t ! r)" "isRoot r (routers t ! r)"
    by (auto simp: deref_Some_iff isRoot_def)
  then show ?case by (rule ancestry.at_root)
next
  case (at_child r R as)
  then have R: "routers s ! r = R" by (simp add: deref_Some_iff)
  have 1: "deref t r = Some (routers t ! r)" using at_child.prems by (simp add: deref_Some_iff)
  have 2: "\<not> isRoot r (routers t ! r)" using at_child.prems at_child.hyps R by (simp add: isRoot_def)
  have 3: "router (routers t ! r) = router R" using at_child.prems R by simp
  have "ancestry t (router R) as" using at_child.IH at_child.prems by simp
  then show ?case using ancestry.at_child[OF 1 2] 3 by simp
qed

lemma wrapping_transfer:
  "\<forall>a \<in> set as. middlewares (routers t ! a) = middlewares (routers s ! a) \<Longrightarrow> wrapping t as = wrapping s as"
  unfolding wrapping_def by (induction as) auto

lemma ancestry_grow:
  assumes "ancestry s r as"
  shows "ancestry (s\<lparr>routers := routers s @ [C]\<rparr>) r as"
proof (rule ancestry_transfer[OF assms])
  show "\<forall>a\<in>set as. a < length (routers (s\<lparr>routers := routers s @ [C]\<rparr>)) \<and>
          router (routers (s\<lparr>routers := routers s @ [C]\<rparr>) ! a) = router (routers s ! a)"
    using ancestry_bound[OF assms] by (auto simp: nth_append)
qed

lemma ancestry_child:
  assumes "ancestry s r as" and "router C = r"
  shows "ancestry (s\<lparr>routers := routers s @ [C]\<rparr>) (length (routers s)) (length (routers s) # as)"
proof -
  let ?t = "s\<lparr>routers := routers s @ [C]\<rparr>"
  from ancestry_hd[OF assms(1)] ancestry_bound[OF assms(1)] have lt: "r < length (routers s)" by auto
  have 1: "deref ?t (length (routers s)) = Some C" by (simp add: deref_def)
  have 2: "\<not> isRoot (length (routers s)) C" using lt assms(2) by (simp add: isRoot_def)
  have 3: "ancestry ?t (router C) as" using ancestry_grow[OF assms(1)] assms(2) by simp
  show ?thesis by (rule ancestry.at_child[OF 1 2 3])
qed

lemma wrapping_grow:
  assumes "ancestry s r as"
  shows "wrapping (s\<lparr>routers := routers s @ [C]\<rparr>) as = wrapping s as"
  by (rule wrapping_transfer) (use ancestry_bound[OF assms] in \<open>auto simp: nth_append\<close>)

lemma climb_ancestry: "climb n s r = Some as \<Longrightarrow> ancestry s r as"
proof (induction n arbitrary: r as)
  case 0
  then show ?case by simp
next
  case (Suc n)
  from Suc.prems obtain R where R: "deref s r = Some R" by (auto split: option.splits)
  show ?case
  proof (cases "isRoot r R")
    case True
    then have "as = [r]" using Suc.prems R by simp
    then show ?thesis using ancestry.at_root[OF R True] by simp
  next
    case False
    then obtain bs where bs: "climb n s (router R) = Some bs" "as = r # bs"
      using Suc.prems R by (auto split: option.splits)
    from ancestry.at_child[OF R False Suc.IH[OF bs(1)]] bs(2) show ?thesis by simp
  qed
qed

section \<open>Group, Handle and Mount on a well-formed tree\<close>

lemma validatePattern_eq:
  "validatePattern p = (if p \<noteq> [] \<and> hd p \<noteq> CHR ''/'' then Inl (PathMustStart p) else Inr ())"
  by (cases p) (simp_all add: validatePattern_def)

lemma Use_fresh:
  "Use (s\<lparr>routers := routers s @ [NR]\<rparr>) (length (routers s)) mws =
     Inr (s\<lparr>routers := routers s @ [NR\<lparr>middlewares := middlewares NR @ mws\<rparr>]\<rparr>)"
  by (simp add: Use_def deref_def set_router_def)

lemma Group_eq:
  assumes "deref s r = Some R"
  shows "Group s r pat mws =
     (case validatePattern (if pat = ''/'' \<and> pattern R \<noteq> ''/'' then pattern R else pattern R @ pat) of
        Inl e \<Rightarrow> Inl e
      | Inr u \<Rightarrow>
          Inr (s\<lparr>routers := routers s @
                 [\<lparr> rm = rm R, router = r, middlewares = mws,
                    pattern = (if pat = ''/'' \<and> pattern R \<noteq> ''/'' then pattern R else pattern R @ pat),
                    registeredHandlers = [], namedMiddlewares = Map.empty \<rparr>]\<rparr>,
               length (routers s)))"
  using assms
  by (simp add: Group_def Let_def Use_fresh split: sum.splits)

lemma Group_ancestry:
  assumes "ancestry s r as"
    and "validatePattern (if pat = ''/'' \<and> pattern (routers s ! r) \<noteq> ''/''
                          then pattern (routers s ! r) else pattern (routers s ! r) @ pat) = Inr ()"
  shows "\<exists>s'. Group s r pat mws = Inr (s', length (routers s)) \<and>
           ancestry s' (length (routers s)) (length (routers s) # as) \<and>
           wrapping s' (length (routers s) # as) = wrapping s as @ mws \<and>
           matchers s' = matchers s \<and>
           length (routers s') = Suc (length (routers s)) \<and>
           pattern (routers s' ! length (routers s)) =
             (if pat = ''/'' \<and> pattern (routers s ! r) \<noteq> ''/''
              then pattern (routers s ! r) else pattern (routers s ! r) @ pat) \<and>
           rm (routers s' ! length (routers s)) = rm (routers s ! r) \<and>
           router (routers s' ! length (routers s)) = r \<and>
           (\<forall>a < length (routers s). routers s' ! a = routers s ! a)"
proof -
  let ?R = "routers s ! r"
  let ?p = "if pat = ''/'' \<and> pattern ?R \<noteq> ''/'' then pattern ?R else pattern ?R @ pat"
  let ?C = "\<lparr> rm = rm ?R, router = r, middlewares = mws, pattern = ?p,
               registeredHandlers = [], namedMiddlewares = Map.empty \<rparr>"
  let ?t = "s\<lparr>routers := routers s @ [?C]\<rparr>"
  have g: "Group s r pat mws = Inr (?t, length (routers s))"
    by (simp only: Group_eq[OF ancestry_deref[OF assms(1)]] assms(2) sum.case)
  have a: "ancestry ?t (length (routers s)) (length (routers s) # as)"
    by (rule ancestry_child[OF assms(1)]) simp
  have w: "wrapping ?t (length (routers s) # as) = wrapping s as @ mws"
    by (simp add: wrapping_Cons wrapping_grow[OF assms(1)])
  show ?thesis using g a w by (intro exI[of _ ?t]) (simp add: nth_append)
qed

lemma Handle_ancestry:
  assumes "ancestry s r as" and "deref s r = Some R"
  shows "Handle s r method pat h =
     (case validatePattern pat of
        Inl e \<Rightarrow> Some (Inl e)
      | Inr u \<Rightarrow> Some (Register
             (set_router s r (R\<lparr>registeredHandlers := registeredHandlers R @
                 [\<lparr>rh_method = method, rh_pattern = pat, rh_handler = BuildHandler (wrapping s as) h\<rparr>]\<rparr>))
             (rm (routers s ! router R)) method
             (if \<not> isRoot r R \<and> pat = ''/'' then pattern R else pattern R @ pat)
             (BuildHandler (wrapping s as) h)))"
proof -
  from assms(2) have r: "r < length (routers s)" "routers s ! r = R" by (simp_all add: deref_Some_iff)
  have p: "router R < length (routers s)"
  proof (cases "isRoot r R")
    case True
    then show ?thesis using r by (simp add: isRoot_def)
  next
    case False
    from assms(1) show ?thesis
    proof (cases rule: ancestry.cases)
      case (at_root R')
      then show ?thesis using assms(2) False by simp
    next
      case (at_child R' bs)
      then have "ancestry s (router R) bs" using assms(2) by simp
      from ancestry_hd[OF this] ancestry_bound[OF this] show ?thesis by auto
    qed
  qed
  let ?R' = "R\<lparr>registeredHandlers := registeredHandlers R @
                 [\<lparr>rh_method = method, rh_pattern = pat, rh_handler = BuildHandler (wrapping s as) h\<rparr>]\<rparr>"
  have d: "deref (set_router s r ?R') (router R) = Some (routers (set_router s r ?R') ! router R)"
    using p by (simp add: deref_def set_router_def)
  have rmP: "rm (routers (set_router s r ?R') ! router R) = rm (routers s ! router R)"
    using r p by (cases "router R = r") (simp_all add: set_router_def)
  show ?thesis
  proof (cases "validatePattern pat")
    case (Inl e)
    then show ?thesis by (simp add: Handle_def)
  next
    case (Inr u)
    show ?thesis unfolding Handle_def Inr
      by (simp only: sum.case assms(2) option.case buildMiddlewares_ancestry[OF assms(1)] Let_def d rmP)
  qed
qed

lemma Register_Inr:
  assumes "Register s d method p h = Inr s'"
  shows "d < length (matchers s) \<and> prevalidation method p = Inr () \<and>
         s' = s\<lparr>matchers := (matchers s)[d := matchers s ! d @ [(p, h, [method])]]\<rparr>"
  using assms by (auto simp: Register_def split: if_splits sum.splits)

lemma Handle_Inr:
  assumes "ancestry s r as" and "deref s r = Some R" and "Handle s r method pat h = Some (Inr s')"
  shows "rm (routers s ! router R) < length (matchers s) \<and>
         routers s' = (routers s)[r := R\<lparr>registeredHandlers := registeredHandlers R @
              [\<lparr>rh_method = method, rh_pattern = pat, rh_handler = BuildHandler (wrapping s as) h\<rparr>]\<rparr>] \<and>
         matchers s' = (matchers s)[rm (routers s ! router R) :=
              matchers s ! rm (routers s ! router R) @
              [(if \<not> isRoot r R \<and> pat = ''/'' then pattern R else pattern R @ pat,
                BuildHandler (wrapping s as) h, [method])]]"
proof -
  let ?R' = "R\<lparr>registeredHandlers := registeredHandlers R @
              [\<lparr>rh_method = method, rh_pattern = pat, rh_handler = BuildHandler (wrapping s as) h\<rparr>]\<rparr>"
  let ?p = "if \<not> isRoot r R \<and> pat = ''/'' then pattern R else pattern R @ pat"
  have "Register (set_router s r ?R') (rm (routers s ! router R)) method ?p (BuildHandler (wrapping s as) h) = Inr s'"
  proof (cases "validatePattern pat")
    case (Inl e)
    then have "Handle s r method pat h = Some (Inl e)"
      by (simp only: Handle_ancestry[OF assms(1,2)] sum.case)
    with assms(3) show ?thesis by simp
  next
    case (Inr u)
    have eq: "Handle s r method pat h =
      Some (Register (set_router s r ?R') (rm (routers s ! router R)) method ?p (BuildHandler (wrapping s as) h))"
      by (simp only: Handle_ancestry[OF assms(1,2)] Inr sum.case)
    from assms(3)[unfolded eq] show ?thesis by (simp only: option.inject)
  qed
  from Register_Inr[OF this] show ?thesis by (simp add: set_router_def)
qed

lemma Mount_loop_ancestry:
  assumes "ancestry s sub as" and "deref s sub = Some S" and "Mount_loop s sub rhs = Some (Inr s')"
  shows "matchers s' = (matchers s)[rm (routers s ! router S) :=
           matchers s ! rm (routers s ! router S) @
           map (\<lambda>rh. (if \<not> isRoot sub S \<and> rh_pattern rh = ''/'' then pattern S else pattern S @ rh_pattern rh,
                       BuildHandler (wrapping s as) (rh_handler rh), [rh_method rh])) rhs]"
  using assms
proof (induction rhs arbitrary: s S)
  case Nil
  then show ?case by simp
next
  case (Cons rh rhs)
  let ?d = "rm (routers s ! router S)"
  let ?b = "BuildHandler (wrapping s as) (rh_handler rh)"
  let ?S' = "S\<lparr>registeredHandlers := registeredHandlers S @
              [\<lparr>rh_method = rh_method rh, rh_pattern = rh_pattern rh, rh_handler = ?b\<rparr>]\<rparr>"
  from Cons.prems(3) obtain s1 where
    h: "Handle s sub (rh_method rh) (rh_pattern rh) (rh_handler rh) = Some (Inr s1)" and
    l: "Mount_loop s1 sub rhs = Some (Inr s')"
    by (auto split: option.splits sum.splits)
  from Handle_Inr[OF Cons.prems(1,2) h] have
    d: "?d < length (matchers s)" and
    r1: "routers s1 = (routers s)[sub := ?S']" and
    m1: "matchers s1 = (matchers s)[?d := matchers s ! ?d @
           [(if \<not> isRoot sub S \<and> rh_pattern rh = ''/'' then pattern S else pattern S @ rh_pattern rh,
             ?b, [rh_method rh])]]"
    by simp_all
  from Cons.prems(2) have sub: "sub < length (routers s)" "routers s ! sub = S"
    by (simp_all add: deref_Some_iff)
  have keep: "\<forall>a. a < length (routers s) \<longrightarrow>
      router (routers s1 ! a) = router (routers s ! a) \<and>
      middlewares (routers s1 ! a) = middlewares (routers s ! a) \<and>
      rm (routers s1 ! a) = rm (routers s ! a)"
    using sub r1 by (auto simp: nth_list_update)
  have a1: "ancestry s1 sub as"
    by (rule ancestry_transfer[OF Cons.prems(1)]) (use ancestry_bound[OF Cons.prems(1)] keep r1 in auto)
  have w1: "wrapping s1 as = wrapping s as"
    by (rule wrapping_transfer) (use ancestry_bound[OF Cons.prems(1)] keep in auto)
  have d1: "deref s1 sub = Some ?S'" using sub r1 by (simp add: deref_Some_iff)
  have pS: "router S < length (routers s)"
  proof (cases "isRoot sub S")
    case True
    then show ?thesis using sub by (simp add: isRoot_def)
  next
    case False
    from Cons.prems(1) show ?thesis
    proof (cases rule: ancestry.cases)
      case (at_root R')
      then show ?thesis using Cons.prems(2) False by simp
    next
      case (at_child R' bs)
      then have "ancestry s (router S) bs" using Cons.prems(2) by simp
      from ancestry_hd[OF this] ancestry_bound[OF this] show ?thesis by auto
    qed
  qed
  have rm1: "rm (routers s1 ! router ?S') = ?d" using keep pS by simp
  have same: "isRoot sub ?S' = isRoot sub S" "pattern ?S' = pattern S"
    by (simp_all add: isRoot_def)
  from Cons.IH[OF a1 d1 l] have
    "matchers s' = (matchers s1)[?d := matchers s1 ! ?d @
       map (\<lambda>rh. (if \<not> isRoot sub S \<and> rh_pattern rh = ''/'' then pattern S else pattern S @ rh_pattern rh,
                   BuildHandler (wrapping s as) (rh_handler rh), [rh_method rh])) rhs]"
    unfolding rm1 w1 same .
  then show ?case unfolding m1 using d by simp
qed

lemma Handle_preserves:
  assumes "ancestry s r as" and "deref s r = Some R" and "Handle s r verb pat h = Some (Inr s1)"
  shows "ancestry s1 r as \<and> wrapping s1 as = wrapping s as \<and>
         deref s1 r = Some (R\<lparr>registeredHandlers := registeredHandlers R @
              [\<lparr>rh_method = verb, rh_pattern = pat, rh_handler = BuildHandler (wrapping s as) h\<rparr>]\<rparr>) \<and>
         rm (routers s1 ! router R) = rm (routers s ! router R)"
proof -
  let ?R' = "R\<lparr>registeredHandlers := registeredHandlers R @
              [\<lparr>rh_method = verb, rh_pattern = pat, rh_handler = BuildHandler (wrapping s as) h\<rparr>]\<rparr>"
  from Handle_Inr[OF assms] have r1: "routers s1 = (routers s)[r := ?R']" by simp
  from assms(2) have r: "r < length (routers s)" "routers s ! r = R"
    by (simp_all add: deref_Some_iff)
  have keep: "\<forall>a. a < length (routers s) \<longrightarrow>
      router (routers s1 ! a) = router (routers s ! a) \<and>
      middlewares (routers s1 ! a) = middlewares (routers s ! a) \<and>
      rm (routers s1 ! a) = rm (routers s ! a)"
    using r r1 by (auto simp: nth_list_update)
  have a1: "ancestry s1 r as"
    by (rule ancestry_transfer[OF assms(1)]) (use ancestry_bound[OF assms(1)] keep r1 in auto)
  have w1: "wrapping s1 as = wrapping s as"
    by (rule wrapping_transfer) (use ancestry_bound[OF assms(1)] keep in auto)
  have d1: "deref s1 r = Some ?R'" using r r1 by (simp add: deref_Some_iff)
  have pR: "router R < length (routers s)"
  proof (cases "isRoot r R")
    case True
    then show ?thesis using r by (simp add: isRoot_def)
  next
    case False
    from assms(1) show ?thesis
    proof (cases rule: ancestry.cases)
      case (at_root R')
      then show ?thesis using assms(2) False by simp
    next
      case (at_child R' bs)
      then have "ancestry s (router R) bs" using assms(2) by simp
      from ancestry_hd[OF this] ancestry_bound[OF this] show ?thesis by auto
    qed
  qed
  have "rm (routers s1 ! router R) = rm (routers s ! router R)" using keep pR by simp
  with a1 w1 d1 show ?thesis by simp
qed

lemma Handle_returns:
  assumes "ancestry s r as"
  shows "Handle s r verb pat h \<noteq> None"
  unfolding Handle_ancestry[OF assms ancestry_deref[OF assms]]
  by (simp split: sum.splits)

lemma Mount_loop_returns:
  assumes "ancestry s sub as"
  shows "Mount_loop s sub rhs \<noteq> None"
  using assms
proof (induction rhs arbitrary: s)
  case Nil
  then show ?case by simp
next
  case (Cons rh rhs)
  show ?case
  proof (cases "Handle s sub (rh_method rh) (rh_pattern rh) (rh_handler rh)")
    case None
    with Handle_returns[OF Cons.prems, of "rh_method rh" "rh_pattern rh" "rh_handler rh"]
    show ?thesis by blast
  next
    case (Some res)
    show ?thesis
    proof (cases res)
      case (Inl e)
      with Some show ?thesis by simp
    next
      case (Inr s1)
      with Some have h: "Handle s sub (rh_method rh) (rh_pattern rh) (rh_handler rh) = Some (Inr s1)"
        by simp
      from Handle_preserves[OF Cons.prems ancestry_deref[OF Cons.prems] h]
      have "ancestry s1 sub as" by simp
      from Cons.IH[OF this] h show ?thesis by simp
    qed
  qed
qed

lemma Mount_returns:
  assumes "ancestry s r as"
  shows "Mount s r pat other mws \<noteq> None"
proof (cases "Group s r pat mws")
  case (Inl e)
  then show ?thesis by (simp add: Mount_def)
next
  case (Inr res)
  obtain s1 sub where res: "res = (s1, sub)" by (cases res)
  let ?R = "routers s ! r"
  let ?p = "if pat = ''/'' \<and> pattern ?R \<noteq> ''/'' then pattern ?R else pattern ?R @ pat"
  have v: "validatePattern ?p = Inr ()"
  proof (cases "validatePattern ?p")
    case (Inl e)
    then have "Group s r pat mws = Inl e"
      by (simp only: Group_eq[OF ancestry_deref[OF assms]] sum.case)
    with Inr show ?thesis by simp
  next
    case (Inr u)
    then show ?thesis by simp
  qed
  from Group_ancestry[OF assms v, of mws] Inr res
  have a1: "ancestry s1 sub (sub # as)" by auto
  show ?thesis
    using Inr res Mount_loop_returns[OF a1]
    by (simp add: Mount_def split: option.splits)
qed

section \<open>Running setup scripts\<close>

lemma succeeded_the_store: "succeeded r \<Longrightarrow> r = Some (Inr (the_store r))"
  by (auto simp: succeeded_def the_store_def split: option.splits sum.splits)

lemma run_script_snoc:
  "run_script s (cs @ [c]) =
     (case run_script s cs of None \<Rightarrow> None | Some (Inl e) \<Rightarrow> Some (Inl e) | Some (Inr s') \<Rightarrow> call s' c)"
  by (induction cs arbitrary: s) (auto split: option.splits sum.splits)

lemma script_step:
  assumes "succeeded (run_script s (cs @ [c]))"
  shows "call (the_store (run_script s cs)) c = Some (Inr (the_store (run_script s (cs @ [c]))))"
proof -
  from assms obtain S where S: "run_script s cs = Some (Inr S)"
    by (auto simp: run_script_snoc succeeded_def split: option.splits sum.splits)
  then have "call S c = run_script s (cs @ [c])" by (simp add: run_script_snoc)
  with succeeded_the_store[OF assms] S show ?thesis by (simp add: the_store_def)
qed

lemma two_level_store:
  "the_store (run_script empty_store [CallNew [tracer ''M1''], CallGroup 0 ''/api'' [tracer ''M2'']]) =
     \<lparr> routers = [\<lparr> rm = 0, router = 0, middlewares = [tracer ''M1''], pattern = [],
                     registeredHandlers = [], namedMiddlewares = Map.empty \<rparr>,
                   \<lparr> rm = 0, router = 0, middlewares = [tracer ''M2''], pattern = ''/api'',
                     registeredHandlers = [], namedMiddlewares = Map.empty \<rparr>],
        matchers = [[]] \<rparr>"
  by (simp add: the_store_def empty_store_def New_def Group_def Use_def deref_def set_router_def
        validatePattern_def Let_def)

text \<open>
  What UseNamed does on a well-formed tree: it returns; it panics with the unknown name
  when no router on the path to the root defines the name; otherwise the nearest router
  on the path that defines the name appends its sequence to its own middleware list.
\<close>

lemma UseNamed_ancestry:
  "ancestry s r as \<Longrightarrow>
   UseNamed s r name =
     Some (case find (\<lambda>a. hasNamed (routers s ! a) name) as of
             None \<Rightarrow> Inl (UnknownNamedMiddlewares name)
           | Some d \<Rightarrow> Use s d (case namedMiddlewares (routers s ! d) name of None \<Rightarrow> [] | Some l \<Rightarrow> l))"
proof (induction rule: ancestry.induct)
  case (at_root r R)
  then have R: "routers s ! r = R" by (simp add: deref_Some_iff)
  show ?case using at_root R by (subst UseNamed.simps) simp
next
  case (at_child r R as)
  then have R: "routers s ! r = R" by (simp add: deref_Some_iff)
  show ?case
  proof (cases "hasNamed R name")
    case True
    then show ?thesis using at_child.hyps(1) R by (subst UseNamed.simps) simp
  next
    case False
    then have "UseNamed s r name = UseNamed s (router R) name"
      using at_child.hyps(1,2) by (subst UseNamed.simps) simp
    then show ?thesis using at_child.IH False R by simp
  qed
qed

section \<open>Stores built by setup scripts\<close>

text \<open>
  Every store that a script builds from the empty store keeps parents below their
  children, so every router in it has a path to a root, and no script runs forever.
\<close>

lemma parents_below_ancestry:
  assumes "parents_below s"
  shows "r < length (routers s) \<Longrightarrow> \<exists>as. ancestry s r as"
proof (induction r rule: less_induct)
  case (less r)
  let ?R = "routers s ! r"
  have d: "deref s r = Some ?R" using less.prems by (simp add: deref_def)
  show ?case
  proof (cases "isRoot r ?R")
    case True
    from ancestry.at_root[OF d True] show ?thesis by blast
  next
    case False
    then have "router ?R < r" using assms less.prems by (auto simp: parents_below_def isRoot_def dest!: spec[of _ r])
    moreover then have "router ?R < length (routers s)" using less.prems by simp
    ultimately obtain as where "ancestry s (router ?R) as" using less.IH by blast
    from ancestry.at_child[OF d False this] show ?thesis by blast
  qed
qed

lemma parents_below_update:
  assumes "parents_below s" and "r < length (routers s)" and "router R' = router (routers s ! r)"
  shows "parents_below (s\<lparr>routers := (routers s)[r := R'], matchers := ms\<rparr>)"
  using assms by (auto simp: parents_below_def nth_list_update)

lemma Use_parents_below:
  assumes "parents_below s" and "Use s r mws = Inr s'"
  shows "parents_below s'"
proof -
  from assms(2) have r: "r < length (routers s)"
    and s': "s' = set_router s r ((routers s ! r)\<lparr>middlewares := middlewares (routers s ! r) @ mws\<rparr>)"
    by (auto simp: Use_def deref_def split: if_splits)
  from parents_below_update[OF assms(1) r, of _ "matchers s"] show ?thesis
    unfolding s' set_router_def by simp
qed

lemma Define_parents_below:
  assumes "parents_below s" and "Define s r name mws = Inr s'"
  shows "parents_below s'"
proof -
  from assms(2) obtain R' where r: "r < length (routers s)"
    and s': "s' = set_router s r R'" and R': "router R' = router (routers s ! r)"
    by (auto simp: Define_def deref_def split: if_splits)
  from parents_below_update[OF assms(1) r R', of "matchers s"] show ?thesis
    unfolding s' set_router_def by simp
qed

lemma New_parents_below:
  assumes "parents_below s" and "New s mws = Inr (s', r)"
  shows "parents_below s'"
proof -
  from assms(2) have "routers s' = routers s @
       [\<lparr> rm = length (matchers s), router = length (routers s), middlewares = mws, pattern = [],
          registeredHandlers = [], namedMiddlewares = Map.empty \<rparr>]"
    by (auto simp: New_def Let_def Use_def deref_def set_router_def)
  then show ?thesis using assms(1) by (auto simp: parents_below_def nth_append)
qed

lemma Group_parents_below:
  assumes "parents_below s" and "Group s r pat mws = Inr (s', c)"
  shows "parents_below s'"
proof -
  from assms(2) have r: "r < length (routers s)"
    by (auto simp: Group_def deref_def split: if_splits)
  then have d: "deref s r = Some (routers s ! r)" by (simp add: deref_def)
  from assms(2) obtain C where "s' = s\<lparr>routers := routers s @ [C]\<rparr>" "router C = r"
    unfolding Group_eq[OF d] by (auto split: sum.splits)
  then show ?thesis using assms(1) r by (auto simp: parents_below_def nth_append)
qed

lemma Handle_parents_below:
  assumes "parents_below s" and "Handle s r verb pat h = Some (Inr s')"
  shows "parents_below s'"
proof -
  from assms(2) have r: "r < length (routers s)"
    by (auto simp: Handle_def deref_def split: sum.splits if_splits)
  from parents_below_ancestry[OF assms(1) r] obtain as where a: "ancestry s r as" by blast
  from Handle_Inr[OF a ancestry_deref[OF a] assms(2)] obtain R' where
    "routers s' = (routers s)[r := R']" "router R' = router (routers s ! r)" by simp
  then show ?thesis using assms(1) r by (auto simp: parents_below_def nth_list_update)
qed

lemma Mount_loop_parents_below:
  assumes "parents_below s" and "Mount_loop s sub rhs = Some (Inr s')"
  shows "parents_below s'"
  using assms
proof (induction rhs arbitrary: s)
  case Nil
  then show ?case by simp
next
  case (Cons rh rhs)
  from Cons.prems(2) obtain s1 where
    h: "Handle s sub (rh_method rh) (rh_pattern rh) (rh_handler rh) = Some (Inr s1)" and
    l: "Mount_loop s1 sub rhs = Some (Inr s')"
    by (auto split: option.splits sum.splits)
  from Cons.IH[OF Handle_parents_below[OF Cons.prems(1) h] l] show ?case .
qed

lemma Mount_parents_below:
  assumes "parents_below s" and "Mount s r pat other mws = Some (Inr s')"
  shows "parents_below s'"
proof -
  from assms(2) obtain s1 sub rhs where g: "Group s r pat mws = Inr (s1, sub)"
    and l: "Mount_loop s1 sub rhs = Some (Inr s')"
    by (auto simp: Mount_def split: sum.splits option.splits)
  from Mount_loop_parents_below[OF Group_parents_below[OF assms(1) g] l] show ?thesis .
qed

lemma UseNamed_parents_below:
  assumes "parents_below s" and "UseNamed s r name = Some (Inr s')"
  shows "parents_below s'"
proof -
  have r: "r < length (routers s)"
  proof (rule ccontr)
    assume "\<not> r < length (routers s)"
    then have "UseNamed s r name = Some (Inl NilDereference)"
      by (subst UseNamed.simps) (simp add: deref_def)
    with assms(2) show False by simp
  qed
  from parents_below_ancestry[OF assms(1) r] obtain as where a: "ancestry s r as" by blast
  from assms(2) obtain d l where "Use s d l = Inr s'"
    unfolding UseNamed_ancestry[OF a] by (auto split: option.splits)
  from Use_parents_below[OF assms(1) this] show ?thesis .
qed

lemma call_parents_below:
  assumes "parents_below s" and "call s c = Some (Inr s')"
  shows "parents_below s'"
proof (cases c)
  case (CallNew mws)
  with assms(2) obtain r where "New s mws = Inr (s', r)" by (auto split: sum.splits)
  from New_parents_below[OF assms(1) this] show ?thesis .
next
  case (CallGroup r pat mws)
  with assms(2) obtain c' where "Group s r pat mws = Inr (s', c')" by (auto split: sum.splits)
  from Group_parents_below[OF assms(1) this] show ?thesis .
next
  case (CallUse r mws)
  with assms(2) have "Use s r mws = Inr s'" by simp
  from Use_parents_below[OF assms(1) this] show ?thesis .
next
  case (CallHandle r verb pat h)
  with assms(2) have "Handle s r verb pat h = Some (Inr s')" by simp
  from Handle_parents_below[OF assms(1) this] show ?thesis .
next
  case (CallMount r pat other mws)
  with assms(2) have "Mount s r pat other mws = Some (Inr s')" by simp
  from Mount_parents_below[OF assms(1) this] show ?thesis .
next
  case (CallDefine r name mws)
  with assms(2) have "Define s r name mws = Inr s'" by simp
  from Define_parents_below[OF assms(1) this] show ?thesis .
next
  case (CallUseNamed r name)
  with assms(2) have "UseNamed s r name = Some (Inr s')" by simp
  from UseNamed_parents_below[OF assms(1) this] show ?thesis .
qed

lemma call_returns:
  assumes "parents_below s"
  shows "call s c \<noteq> None"
proof (cases c)
  case (CallHandle r verb pat h)
  show ?thesis
  proof (cases "r < length (routers s)")
    case True
    from parents_below_ancestry[OF assms True] obtain as where "ancestry s r as" by blast
    from Handle_returns[OF this] CallHandle show ?thesis by simp
  next
    case False
    then show ?thesis using CallHandle by (simp add: Handle_def deref_def split: sum.splits)
  qed
next
  case (CallMount r pat other mws)
  show ?thesis
  proof (cases "r < length (routers s)")
    case True
    from parents_below_ancestry[OF assms True] obtain as where "ancestry s r as" by blast
    from Mount_returns[OF this] CallMount show ?thesis by simp
  next
    case False
    then show ?thesis using CallMount by (simp add: Mount_def Group_def deref_def)
  qed
next
  case (CallUseNamed r name)
  show ?thesis
  proof (cases "r < length (routers s)")
    case True
    from parents_below_ancestry[OF assms True] obtain as where "ancestry s r as" by blast
    from UseNamed_ancestry[OF this] CallUseNamed show ?thesis by simp
  next
    case False
    then have "UseNamed s r name = Some (Inl NilDereference)"
      by (subst UseNamed.simps) (simp add: deref_def)
    then show ?thesis using CallUseNamed by simp
  qed
qed (simp_all split: sum.splits)

lemma run_script_parents_below:
  assumes "parents_below s"
  shows "run_script s cs \<noteq> None \<and> (\<forall>s'. run_script s cs = Some (Inr s') \<longrightarrow> parents_below s')"
  using assms
proof (induction cs arbitrary: s)
  case Nil
  then show ?case by simp
next
  case (Cons c cs)
  show ?case
  proof (cases "call s c")
    case None
    with call_returns[OF Cons.prems, of c] show ?thesis by simp
  next
    case (Some res)
    show ?thesis
    proof (cases res)
      case (Inl e)
      with Some show ?thesis by simp
    next
      case (Inr s1)
      with Some have c: "call s c = Some (Inr s1)" by simp
      from Cons.IH[OF call_parents_below[OF Cons.prems c]] c show ?thesis by simp
    qed
  qed
qed

lemma script_store_ancestry:
  assumes "run_script empty_store cs = Some (Inr s)" and "r < length (routers s)"
  shows "\<exists>as. ancestry s r as"
proof -
  have "parents_below (empty_store :: 'a store)" by (simp add: parents_below_def empty_store_def)
  from run_script_parents_below[OF this, of cs] assms(1) have "parents_below s" by simp
  from parents_below_ancestry[OF this assms(2)] show ?thesis .
qed

lemma script_returns: "run_script empty_store cs \<noteq> None"
proof -
  have "parents_below (empty_store :: 'a store)" by (simp add: parents_below_def empty_store_def)
  from run_script_parents_below[OF this, of cs] show ?thesis by simp
qed

section \<open>The router: composition, registration, mounting\<close>

text \<open>
  C2. Let \<open>as\<close> be the path from a router \<open>r\<close> up to its root and let every router on
  it carry tracing middlewares, router \<open>a\<close> those named \<open>names a\<close> in registration
  order. Then for every terminal handler \<open>h\<close> buildMiddlewares returns, and the handler
  it builds records first the names of the root, then those of each router down the
  path, each router's names in registration order, and runs \<open>h\<close> last, on the log that
  holds all those names. The built handler is \<open>h\<close> wrapped by all middlewares of the
  path, the root's first one outermost. For root middleware M1, child middleware M2 and
  a handler that records H the recorded order is M1, M2, H.
\<close>

theorem buildMiddlewares_order:
  assumes "ancestry s r as"
    and "\<forall>a \<in> set as. middlewares (routers s ! a) = map tracer (names a)"
  shows "\<exists>b. buildMiddlewares s r h = Some (Inr b) \<and>
              b = BuildHandler (wrapping s as) h \<and>
              (\<forall>log. b log = h (log @ concat (map names (rev as))))"
proof -
  have w: "wrapping s as = map tracer (concat (map names (rev as)))"
    unfolding wrapping_def by (rule concat_map_tracer) (use assms(2) in simp)
  show ?thesis
    using buildMiddlewares_ancestry[OF assms(1), of h]
    by (simp add: w BuildHandler_tracer)
qed

theorem buildMiddlewares_order_witness:
  "\<exists>b. buildMiddlewares
          (the_store (run_script empty_store [CallNew [tracer ''M1''], CallGroup 0 ''/api'' [tracer ''M2'']]))
          1 (emit ''H'') = Some (Inr b)
        \<and> b [] = [''M1'', ''M2'', ''H'']"
proof -
  let ?s = "the_store (run_script empty_store [CallNew [tracer ''M1''], CallGroup 0 ''/api'' [tracer ''M2'']])"
  have a0: "ancestry ?s 0 [0]"
    unfolding two_level_store
    by (rule ancestry.at_root[where R = "\<lparr> rm = 0, router = 0, middlewares = [tracer ''M1''], pattern = [],
                     registeredHandlers = [], namedMiddlewares = Map.empty \<rparr>"])
       (simp_all add: deref_def isRoot_def)
  have a1: "ancestry ?s 1 [1, 0]"
    using a0 unfolding two_level_store
    by (intro ancestry.at_child[where R = "\<lparr> rm = 0, router = 0, middlewares = [tracer ''M2''], pattern = ''/api'',
                     registeredHandlers = [], namedMiddlewares = Map.empty \<rparr>"])
       (simp_all add: deref_def isRoot_def)
  have n: "\<forall>a \<in> set [1, 0::nat]. middlewares (routers ?s ! a) =
              map tracer ((\<lambda>a. if a = 0 then [''M1''] else [''M2'']) a)"
    unfolding two_level_store by simp
  from buildMiddlewares_order[OF a1 n, of "emit ''H''"] show ?thesis by (auto simp: emit_def)
qed

text \<open>
  C3, as the code has it. Group resolves the child's full pattern as the parent's
  resolved pattern followed by the child segment, except that when the segment is exactly
  "/" and the parent's resolved pattern is not exactly "/", the child's full pattern is
  the parent's resolved pattern unchanged. The test is on the parent's pattern, not on
  the parent being the root. Group returns the new child (with that pattern, the parent
  as its parent and the parent's matcher) whenever the resolved pattern passes
  validatePattern. Grouping "/" under a router at "/a" yields "/a" (the witness).
\<close>

theorem Group_resolves_pattern:
  assumes "deref s r = Some R"
  shows "(validatePattern (if pat = ''/'' \<and> pattern R \<noteq> ''/'' then pattern R else pattern R @ pat) = Inr ()
            \<longrightarrow> (\<exists>s'. Group s r pat mws = Inr (s', length (routers s))))
         \<and> (\<forall>s' c. Group s r pat mws = Inr (s', c) \<longrightarrow>
               c = length (routers s) \<and>
               deref s' c = Some \<lparr> rm = rm R, router = r, middlewares = mws,
                  pattern = (if pat = ''/'' \<and> pattern R \<noteq> ''/'' then pattern R else pattern R @ pat),
                  registeredHandlers = [], namedMiddlewares = Map.empty \<rparr>)"
proof (cases "validatePattern (if pat = ''/'' \<and> pattern R \<noteq> ''/'' then pattern R else pattern R @ pat)")
  case (Inl e)
  then have "Group s r pat mws = Inl e" by (simp only: Group_eq[OF assms] sum.case)
  with Inl show ?thesis by simp
next
  case (Inr u)
  then have "Group s r pat mws = Inr (s\<lparr>routers := routers s @
                 [\<lparr> rm = rm R, router = r, middlewares = mws,
                    pattern = (if pat = ''/'' \<and> pattern R \<noteq> ''/'' then pattern R else pattern R @ pat),
                    registeredHandlers = [], namedMiddlewares = Map.empty \<rparr>]\<rparr>,
               length (routers s))"
    by (simp only: Group_eq[OF assms] sum.case)
  then show ?thesis by (simp add: deref_def)
qed

theorem Group_resolves_pattern_witness:
  "\<exists>s'. Group (the_store (run_script (empty_store :: string list store) [CallNew [], CallGroup 0 ''/a'' []])) 1 ''/'' []
           = Inr (s', 2)
        \<and> pattern (routers s' ! 2) = ''/a''"
proof -
  let ?sa = "the_store (run_script (empty_store :: string list store) [CallNew [], CallGroup 0 ''/a'' []])"
  have len: "length (routers ?sa) = 2" by code_simp
  have "1 < length (routers ?sa)" by code_simp
  then have d: "deref ?sa 1 = Some (routers ?sa ! 1)" by (simp only: deref_def if_True)
  have p: "(if ''/'' = ''/'' \<and> pattern (routers ?sa ! 1) \<noteq> ''/'' then pattern (routers ?sa ! 1)
            else pattern (routers ?sa ! 1) @ ''/'') = ''/a''" by code_simp
  have v: "validatePattern ''/a'' = Inr ()" by code_simp
  note g = Group_resolves_pattern[OF d, of "''/''" "[]", unfolded p len]
  from g v obtain s' where s': "Group ?sa 1 ''/'' [] = Inr (s', 2)" by blast
  with g have "deref s' 2 = Some \<lparr> rm = rm (routers ?sa ! 1), router = 1, middlewares = [],
                  pattern = ''/a'', registeredHandlers = [], namedMiddlewares = Map.empty \<rparr>"
    by blast
  then have "pattern (routers s' ! 2) = ''/a''" by (auto simp only: deref_def split: if_splits) simp
  with s' show ?thesis by blast
qed

text \<open>
  C3 as stated fails at the root: the root made by New has the empty pattern, which is
  not "/", so grouping "/" under the root yields the empty pattern and not "/", the
  concatenation that the claim asks for when the parent is the tree root.
\<close>

theorem Group_root_slash_counterexample:
  "observe patterns (run_script (empty_store :: string list store) [CallNew [], CallGroup 0 ''/'' []])
     = Some (Inr ['''', ''''])
   \<and> observe patterns (run_script (empty_store :: string list store) [CallNew [], CallGroup 0 ''/'' []])
     \<noteq> Some (Inr ['''', '''' @ ''/''])
   \<and> climb 1 (the_store (run_script (empty_store :: string list store) [CallNew []])) 0 = Some [0]"
  by code_simp

text \<open>
  C4. From a root with the empty pattern (as New makes it) whose matcher exists, the
  groups "/a", "/b" and "/c", each made from the one before, all succeed, and a route
  registered on the innermost group with the relative pattern "/d" and an allowed method
  is registered with the root's matcher under "/a/b/c/d"; nothing else changes in the
  matchers. The handler registered is the given handler wrapped by the middlewares of
  the root and of the three groups, in that order.
\<close>

theorem nested_groups_register_abcd:
  assumes "deref s r = Some R" and "isRoot r R" and "pattern R = []"
    and "rm R < length (matchers s)" and "isInStringSlice allowedHTTPMethods method"
  shows "\<exists>s1 g1 s2 g2 s3 g3 s4.
           Group s r ''/a'' m1 = Inr (s1, g1) \<and> Group s1 g1 ''/b'' m2 = Inr (s2, g2) \<and>
           Group s2 g2 ''/c'' m3 = Inr (s3, g3) \<and>
           Handle s3 g3 method ''/d'' h = Some (Inr s4) \<and>
           matchers s4 = (matchers s)[rm R := matchers s ! rm R @
              [(''/a/b/c/d'', BuildHandler (middlewares R @ m1 @ m2 @ m3) h, [method])]]"
proof -
  from assms(1) have R: "routers s ! r = R" and rl: "r < length (routers s)"
    by (simp_all add: deref_Some_iff)
  have a0: "ancestry s r [r]" by (rule ancestry.at_root[OF assms(1,2)])
  have w0: "wrapping s [r] = middlewares R" by (simp add: wrapping_def R)
  have v1: "validatePattern (if ''/a'' = ''/'' \<and> pattern (routers s ! r) \<noteq> ''/''
              then pattern (routers s ! r) else pattern (routers s ! r) @ ''/a'') = Inr ()"
    by (simp add: R assms(3) validatePattern_def)
  from Group_ancestry[OF a0 v1, of m1] obtain s1 where s1:
    "Group s r ''/a'' m1 = Inr (s1, length (routers s))"
    "ancestry s1 (length (routers s)) [length (routers s), r]"
    "wrapping s1 [length (routers s), r] = wrapping s [r] @ m1"
    "matchers s1 = matchers s" "length (routers s1) = Suc (length (routers s))"
    "pattern (routers s1 ! length (routers s)) = ''/a''"
    "rm (routers s1 ! length (routers s)) = rm R"
    by (auto simp: R assms(3))
  let ?g1 = "length (routers s)"
  have v2: "validatePattern (if ''/b'' = ''/'' \<and> pattern (routers s1 ! ?g1) \<noteq> ''/''
              then pattern (routers s1 ! ?g1) else pattern (routers s1 ! ?g1) @ ''/b'') = Inr ()"
    by (simp add: s1(6) validatePattern_def)
  from Group_ancestry[OF s1(2) v2, of m2] obtain s2 where s2:
    "Group s1 ?g1 ''/b'' m2 = Inr (s2, length (routers s1))"
    "ancestry s2 (length (routers s1)) [length (routers s1), ?g1, r]"
    "wrapping s2 [length (routers s1), ?g1, r] = wrapping s1 [?g1, r] @ m2"
    "matchers s2 = matchers s1" "length (routers s2) = Suc (length (routers s1))"
    "pattern (routers s2 ! length (routers s1)) = ''/a/b''"
    "rm (routers s2 ! length (routers s1)) = rm R"
    by (auto simp: s1(6,7))
  let ?g2 = "length (routers s1)"
  have v3: "validatePattern (if ''/c'' = ''/'' \<and> pattern (routers s2 ! ?g2) \<noteq> ''/''
              then pattern (routers s2 ! ?g2) else pattern (routers s2 ! ?g2) @ ''/c'') = Inr ()"
    by (simp add: s2(6) validatePattern_def)
  from Group_ancestry[OF s2(2) v3, of m3] obtain s3 where s3:
    "Group s2 ?g2 ''/c'' m3 = Inr (s3, length (routers s2))"
    "ancestry s3 (length (routers s2)) [length (routers s2), ?g2, ?g1, r]"
    "wrapping s3 [length (routers s2), ?g2, ?g1, r] = wrapping s2 [?g2, ?g1, r] @ m3"
    "matchers s3 = matchers s2" "length (routers s3) = Suc (length (routers s2))"
    "pattern (routers s3 ! length (routers s2)) = ''/a/b/c''"
    "router (routers s3 ! length (routers s2)) = ?g2"
    "routers s3 ! ?g2 = routers s2 ! ?g2"
    by (auto simp: s2(5,6,7))
  let ?g3 = "length (routers s2)"
  have d3: "deref s3 ?g3 = Some (routers s3 ! ?g3)" by (rule ancestry_deref[OF s3(2)])
  have nr: "\<not> isRoot ?g3 (routers s3 ! ?g3)" using s3(7) s2(5) by (simp add: isRoot_def)
  have vd: "validatePattern ''/d'' = Inr ()" by (simp add: validatePattern_def)
  have pv: "prevalidation method ''/a/b/c/d'' = Inr ()" using assms(5) by (simp add: prevalidation_def)
  have w3: "wrapping s3 [?g3, ?g2, ?g1, r] = middlewares R @ m1 @ m2 @ m3"
    by (simp add: s3(3) s2(3) s1(3) w0)
  have rmp: "rm (routers s3 ! router (routers s3 ! ?g3)) = rm R" by (simp add: s3(7,8) s2(7))
  have m3: "matchers s3 = matchers s" by (simp add: s3(4) s2(4) s1(4))
  have "Handle s3 ?g3 method ''/d'' h =
      Some (Inr (set_router s3 ?g3
                   ((routers s3 ! ?g3)\<lparr>registeredHandlers := registeredHandlers (routers s3 ! ?g3) @
                       [\<lparr>rh_method = method, rh_pattern = ''/d'',
                         rh_handler = BuildHandler (middlewares R @ m1 @ m2 @ m3) h\<rparr>]\<rparr>)
                 \<lparr>matchers := (matchers s)[rm R := matchers s ! rm R @
                     [(''/a/b/c/d'', BuildHandler (middlewares R @ m1 @ m2 @ m3) h, [method])]]\<rparr>))"
    unfolding Handle_ancestry[OF s3(2) d3] vd
    using nr assms(4) pv by (simp add: w3 rmp s3(6) Register_def set_router_def m3)
  with s1(1) s2(1) s3(1) show ?thesis by (auto simp: set_router_def)
qed

theorem nested_groups_register_abcd_witness:
  "\<exists>s1 g1 s2 g2 s3 g3 s4.
       Group (the_store (run_script empty_store [CallNew [tracer ''M'']])) 0 ''/a'' [] = Inr (s1, g1)
     \<and> Group s1 g1 ''/b'' [] = Inr (s2, g2)
     \<and> Group s2 g2 ''/c'' [] = Inr (s3, g3)
     \<and> Handle s3 g3 ''GET'' ''/d'' (emit ''H'') = Some (Inr s4)
     \<and> routes 0 s4 = [([''GET''], ''/a/b/c/d'', [''M'', ''H''])]"
proof -
  let ?sa = "the_store (run_script empty_store [CallNew [tracer ''M'']])"
  have "0 < length (routers ?sa)" by code_simp
  then have d: "deref ?sa 0 = Some (routers ?sa ! 0)" by (simp only: deref_def if_True)
  have r: "isRoot 0 (routers ?sa ! 0)" by code_simp
  have p: "pattern (routers ?sa ! 0) = []" by code_simp
  have m: "rm (routers ?sa ! 0) < length (matchers ?sa)" by code_simp
  have a: "isInStringSlice allowedHTTPMethods ''GET''" by code_simp
  from nested_groups_register_abcd[OF d r p m a, of "[]" "[]" "[]" "emit ''H''"]
  obtain s1 g1 s2 g2 s3 g3 s4 where e:
    "Group ?sa 0 ''/a'' [] = Inr (s1, g1)" "Group s1 g1 ''/b'' [] = Inr (s2, g2)"
    "Group s2 g2 ''/c'' [] = Inr (s3, g3)" "Handle s3 g3 ''GET'' ''/d'' (emit ''H'') = Some (Inr s4)"
    "matchers s4 = (matchers ?sa)[rm (routers ?sa ! 0) := matchers ?sa ! rm (routers ?sa ! 0) @
        [(''/a/b/c/d'', BuildHandler (middlewares (routers ?sa ! 0) @ [] @ [] @ []) (emit ''H''), [''GET''])]]"
    by blast
  have "routes 0 s4 = [([''GET''], ''/a/b/c/d'', [''M'', ''H''])]"
    unfolding routes_def e(5) by code_simp
  with e(1-4) show ?thesis by blast
qed

text \<open>
  C1, as the code has it. Handle stores in registeredHandlers the composed handler, that
  is the handler it was given wrapped by the middlewares of its router and of all its
  ancestors. Mount creates the child group and replays every entry of the mounted
  router through Handle on that group with the entry's method, its relative pattern and
  its stored, composed handler: the mounting router's matcher receives one route per
  entry, under the group's pattern followed by the relative pattern, whose handler is the
  stored handler wrapped by the middlewares of the mounting router's ancestors, of the
  mounting router and of the group. The middlewares the mounted router and its
  ancestors had at registration stay inside the replayed handler. On a router with a
  path to a root both Handle and Mount return, with a result or a panic.
\<close>

theorem Mount_replays_stored_handlers:
  "(ancestry t q qs \<and> Handle t q verb rel h = Some (Inr t') \<longrightarrow>
      registeredHandlers (routers t' ! q) =
        registeredHandlers (routers t ! q) @
          [\<lparr>rh_method = verb, rh_pattern = rel, rh_handler = BuildHandler (wrapping t qs) h\<rparr>])
   \<and> (ancestry s r as \<and> deref s other = Some Q \<and> Mount s r pat other mws = Some (Inr s') \<longrightarrow>
      matchers s' = (matchers s)[rm (routers s ! r) :=
        matchers s ! rm (routers s ! r) @
        map (\<lambda>rh.
              (if rh_pattern rh = ''/''
               then (if pat = ''/'' \<and> pattern (routers s ! r) \<noteq> ''/''
                     then pattern (routers s ! r) else pattern (routers s ! r) @ pat)
               else (if pat = ''/'' \<and> pattern (routers s ! r) \<noteq> ''/''
                     then pattern (routers s ! r) else pattern (routers s ! r) @ pat) @ rh_pattern rh,
               BuildHandler (wrapping s as @ mws) (rh_handler rh),
               [rh_method rh]))
          (registeredHandlers Q)])
   \<and> (ancestry t q qs \<longrightarrow> Handle t q verb rel h \<noteq> None)
   \<and> (ancestry s r as \<longrightarrow> Mount s r pat other mws \<noteq> None)"
proof (intro conjI impI)
  assume a: "ancestry t q qs \<and> Handle t q verb rel h = Some (Inr t')"
  then have anc: "ancestry t q qs" and hdl: "Handle t q verb rel h = Some (Inr t')" by simp_all
  have q: "q < length (routers t)" using ancestry_deref[OF anc] by (simp add: deref_Some_iff)
  from Handle_Inr[OF anc ancestry_deref[OF anc] hdl] q
  show "registeredHandlers (routers t' ! q) =
        registeredHandlers (routers t ! q) @
          [\<lparr>rh_method = verb, rh_pattern = rel, rh_handler = BuildHandler (wrapping t qs) h\<rparr>]"
    by simp
next
  assume a: "ancestry s r as \<and> deref s other = Some Q \<and> Mount s r pat other mws = Some (Inr s')"
  let ?R = "routers s ! r"
  let ?p = "if pat = ''/'' \<and> pattern ?R \<noteq> ''/'' then pattern ?R else pattern ?R @ pat"
  let ?C = "\<lparr> rm = rm ?R, router = r, middlewares = mws, pattern = ?p,
               registeredHandlers = [], namedMiddlewares = Map.empty \<rparr>"
  let ?t' = "s\<lparr>routers := routers s @ [?C]\<rparr>"
  let ?sub = "length (routers s)"
  from a have anc: "ancestry s r as" and oth: "deref s other = Some Q"
    and mnt: "Mount s r pat other mws = Some (Inr s')" by simp_all
  have dr: "deref s r = Some ?R" by (rule ancestry_deref[OF anc])
  then have r: "r < length (routers s)" by (simp add: deref_Some_iff)
  have g: "Group s r pat mws = Inr (?t', ?sub)"
  proof (cases "validatePattern ?p")
    case (Inl e)
    then have "Group s r pat mws = Inl e"
      by (simp only: Group_eq[OF dr] sum.case)
    with mnt show ?thesis by (simp add: Mount_def)
  next
    case (Inr u)
    then show ?thesis by (simp only: Group_eq[OF dr] sum.case)
  qed
  have o1: "deref ?t' other = Some Q" using oth by (auto simp: deref_def nth_append split: if_splits)
  have loop: "Mount_loop ?t' ?sub (registeredHandlers Q) = Some (Inr s')"
    using mnt unfolding Mount_def g by (simp only: sum.case prod.case o1 option.case)
  have a1: "ancestry ?t' ?sub (?sub # as)" by (rule ancestry_child[OF anc]) simp
  have d1: "deref ?t' ?sub = Some ?C" by (simp add: deref_def)
  have w1: "wrapping ?t' (?sub # as) = wrapping s as @ mws"
    by (simp add: wrapping_Cons wrapping_grow[OF anc])
  have nr: "\<not> isRoot ?sub ?C" using r by (simp add: isRoot_def)
  have rmr: "rm (routers ?t' ! router ?C) = rm ?R" using r by (simp add: nth_append)
  have pc: "pattern ?C = ?p" by simp
  have m1: "matchers ?t' = matchers s" by simp
  from Mount_loop_ancestry[OF a1 d1 loop]
  show "matchers s' = (matchers s)[rm ?R := matchers s ! rm ?R @
        map (\<lambda>rh. (if rh_pattern rh = ''/'' then ?p else ?p @ rh_pattern rh,
               BuildHandler (wrapping s as @ mws) (rh_handler rh), [rh_method rh]))
          (registeredHandlers Q)]"
    unfolding w1 rmr pc m1 using nr by simp
next
  assume "ancestry t q qs"
  then show "Handle t q verb rel h \<noteq> None" by (rule Handle_returns)
next
  assume "ancestry s r as"
  then show "Mount s r pat other mws \<noteq> None" by (rule Mount_returns)
qed

theorem Mount_replays_stored_handlers_witness:
  "map (\<lambda>rh. (rh_method rh, rh_pattern rh, rh_handler rh []))
     (registeredHandlers (routers (the_store
        (run_script empty_store [CallNew [tracer ''R''], CallHandle 0 ''GET'' ''/x'' (emit ''H'')])) ! 0))
     = [(''GET'', ''/x'', [''R'', ''H''])]
   \<and> routes 1 (the_store (run_script empty_store
        [CallNew [tracer ''R''], CallHandle 0 ''GET'' ''/x'' (emit ''H''), CallNew [tracer ''M''],
         CallMount 1 ''/m'' 0 []]))
     = [([''GET''], ''/m/x'', [''M'', ''R'', ''H''])]"
proof -
  let ?sa = "the_store (run_script empty_store [CallNew [tracer ''R'']])"
  let ?sb = "the_store (run_script empty_store [CallNew [tracer ''R''], CallHandle 0 ''GET'' ''/x'' (emit ''H'')])"
  let ?sc = "the_store (run_script empty_store
              [CallNew [tracer ''R''], CallHandle 0 ''GET'' ''/x'' (emit ''H''), CallNew [tracer ''M'']])"
  let ?sd = "the_store (run_script empty_store
              [CallNew [tracer ''R''], CallHandle 0 ''GET'' ''/x'' (emit ''H''), CallNew [tracer ''M''],
               CallMount 1 ''/m'' 0 []])"
  have a0: "ancestry ?sa 0 [0]" by (rule climb_ancestry[of 2]) code_simp
  have "succeeded (run_script empty_store ([CallNew [tracer ''R'']] @ [CallHandle 0 ''GET'' ''/x'' (emit ''H'')]))"
    by code_simp
  from script_step[OF this] have h0: "Handle ?sa 0 ''GET'' ''/x'' (emit ''H'') = Some (Inr ?sb)"
    by (simp only: append.simps call.simps)
  have a: "ancestry ?sc 1 [1]" by (rule climb_ancestry[of 2]) code_simp
  have d: "deref ?sc 0 = Some (routers ?sc ! 0)"
  proof -
    have "0 < length (routers ?sc)" by code_simp
    then show ?thesis by (simp only: deref_def if_True)
  qed
  have "succeeded (run_script empty_store
          ([CallNew [tracer ''R''], CallHandle 0 ''GET'' ''/x'' (emit ''H''), CallNew [tracer ''M'']]
           @ [CallMount 1 ''/m'' 0 []]))"
    by code_simp
  from script_step[OF this] have m: "Mount ?sc 1 ''/m'' 0 [] = Some (Inr ?sd)"
    by (simp only: append.simps call.simps)
  note inst = Mount_replays_stored_handlers[where t = ?sa and q = 0 and qs = "[0]" and verb = "''GET''"
      and rel = "''/x''" and h = "emit ''H''" and t' = ?sb and s = ?sc and r = 1 and as = "[1]"
      and other = 0 and Q = "routers ?sc ! 0" and pat = "''/m''" and mws = "[]" and s' = ?sd]
  note c1 = inst[THEN conjunct1, rule_format, OF conjI[OF a0 h0]]
  note c2 = inst[THEN conjunct2, THEN conjunct1, rule_format, OF conjI[OF a conjI[OF d m]]]
  have 1: "map (\<lambda>rh. (rh_method rh, rh_pattern rh, rh_handler rh [])) (registeredHandlers (routers ?sb ! 0))
     = [(''GET'', ''/x'', [''R'', ''H''])]"
    unfolding c1 by code_simp
  have 2: "routes 1 ?sd = [([''GET''], ''/m/x'', [''M'', ''R'', ''H''])]"
    unfolding routes_def c2 by code_simp
  from 1 2 show ?thesis by (rule conjI)
qed

text \<open>
  C1 as stated fails: a router with the middleware R and the route GET /x to H is mounted
  at /m under a root with the middleware M. The route the matcher receives runs M, R, H.
  Had only the terminal handler and the relative pattern been reused, as when H is
  registered on the group itself, it would run M, H.
\<close>

theorem Mount_terminal_only_counterexample:
  "observe (routes 1) (run_script empty_store
      [CallNew [tracer ''R''], CallHandle 0 ''GET'' ''/x'' (emit ''H''), CallNew [tracer ''M''],
       CallMount 1 ''/m'' 0 []])
     = Some (Inr [([''GET''], ''/m/x'', [''M'', ''R'', ''H''])])
   \<and> observe (routes 1) (run_script empty_store
      [CallNew [tracer ''R''], CallHandle 0 ''GET'' ''/x'' (emit ''H''), CallNew [tracer ''M''],
       CallGroup 1 ''/m'' [], CallHandle 2 ''GET'' ''/x'' (emit ''H'')])
     = Some (Inr [([''GET''], ''/m/x'', [''M'', ''H''])])
   \<and> observe (routes 1) (run_script empty_store
      [CallNew [tracer ''R''], CallHandle 0 ''GET'' ''/x'' (emit ''H''), CallNew [tracer ''M''],
       CallMount 1 ''/m'' 0 []])
     \<noteq> observe (routes 1) (run_script empty_store
      [CallNew [tracer ''R''], CallHandle 0 ''GET'' ''/x'' (emit ''H''), CallNew [tracer ''M''],
       CallGroup 1 ''/m'' [], CallHandle 2 ''GET'' ''/x'' (emit ''H'')])"
  by code_simp

text \<open>
  C6, at the input where the code departs from it. The root defines "auth" as the
  middleware A; its group /y does not and calls UseNamed "auth". The call is delegated
  to the root as a whole, so A is appended to the root's middleware list and the group's
  own list stays as it was: a route registered afterwards on the root, outside the
  group, runs A, and on a group that already uses a middleware Y the route runs A before
  Y, whatever the order of the calls on the group. When no router defines "auth" the
  call panics with that name, as the claim says.
\<close>

theorem UseNamed_inherited_lands_on_definer:
  "observe middleware_traces (run_script empty_store
      [CallNew [], CallDefine 0 ''auth'' [tracer ''A''], CallGroup 0 ''/y'' [], CallUseNamed 1 ''auth''])
     = Some (Inr [[[''A'']], []])
   \<and> observe (routes 0) (run_script empty_store
      [CallNew [], CallDefine 0 ''auth'' [tracer ''A''], CallGroup 0 ''/y'' [], CallUseNamed 1 ''auth'',
       CallHandle 0 ''GET'' ''/out'' (emit ''H'')])
     = Some (Inr [([''GET''], ''/out'', [''A'', ''H''])])
   \<and> observe (routes 0) (run_script empty_store
      [CallNew [], CallDefine 0 ''auth'' [tracer ''A''], CallGroup 0 ''/y'' [tracer ''Y''], CallUseNamed 1 ''auth'',
       CallHandle 1 ''GET'' ''/in'' (emit ''H'')])
     = Some (Inr [([''GET''], ''/y/in'', [''A'', ''Y'', ''H''])])
   \<and> observe patterns (run_script (empty_store :: string list store)
      [CallNew [], CallGroup 0 ''/y'' [], CallUseNamed 1 ''auth''])
     = Some (Inl (UnknownNamedMiddlewares ''auth''))"
  by code_simp

text \<open>
  C8, as the code has it. validatePattern panics exactly on a non-empty pattern whose
  first character is not '/'; the empty pattern passes. Handle validates its relative
  pattern first, so a non-empty relative pattern that does not start with '/' is a panic
  of route registration on any router. Group validates the resolved full pattern, so
  grouping panics when that pattern is non-empty and does not start with '/', which is
  the case for a non-empty segment without '/' under a router whose pattern is empty. A
  pattern that starts with '/' passes validatePattern, and passes the matcher's
  prevalidation when the method is allowed; prevalidation panics on an empty absolute
  pattern and on one that does not start with '/'.
\<close>

theorem pattern_validation:
  "validatePattern p = (if p \<noteq> [] \<and> hd p \<noteq> CHR ''/'' then Inl (PathMustStart p) else Inr ())
   \<and> (p \<noteq> [] \<and> hd p \<noteq> CHR ''/'' \<longrightarrow> Handle s r method p h = Some (Inl (PathMustStart p)))
   \<and> (deref s r = Some R \<and> full = (if p = ''/'' \<and> pattern R \<noteq> ''/'' then pattern R else pattern R @ p)
        \<and> full \<noteq> [] \<and> hd full \<noteq> CHR ''/'' \<longrightarrow> Group s r p mws = Inl (PathMustStart full))
   \<and> (deref s r = Some R \<and> pattern R = [] \<and> p \<noteq> [] \<and> hd p \<noteq> CHR ''/''
        \<longrightarrow> Group s r p mws = Inl (PathMustStart p))
   \<and> (p \<noteq> [] \<and> hd p = CHR ''/'' \<longrightarrow>
        validatePattern p = Inr () \<and>
        prevalidation method p =
          (if isInStringSlice allowedHTTPMethods method then Inr () else Inl (InvalidHTTPMethod method)))
   \<and> (p = [] \<or> hd p \<noteq> CHR ''/'' \<longrightarrow> prevalidation method p = Inl (PathMustBegin p))"
proof (intro conjI impI)
  show "validatePattern p = (if p \<noteq> [] \<and> hd p \<noteq> CHR ''/'' then Inl (PathMustStart p) else Inr ())"
    by (rule validatePattern_eq)
next
  assume "p \<noteq> [] \<and> hd p \<noteq> CHR ''/''"
  then show "Handle s r method p h = Some (Inl (PathMustStart p))"
    by (simp add: Handle_def validatePattern_eq)
next
  assume a: "deref s r = Some R \<and> full = (if p = ''/'' \<and> pattern R \<noteq> ''/'' then pattern R else pattern R @ p)
        \<and> full \<noteq> [] \<and> hd full \<noteq> CHR ''/''"
  then have dr: "deref s r = Some R"
    and f: "full = (if p = ''/'' \<and> pattern R \<noteq> ''/'' then pattern R else pattern R @ p)"
    and nb: "full \<noteq> [] \<and> hd full \<noteq> CHR ''/''" by blast+
  from nb have v: "validatePattern full = Inl (PathMustStart full)" by (simp add: validatePattern_eq)
  show "Group s r p mws = Inl (PathMustStart full)"
    unfolding Group_eq[OF dr] f[symmetric] by (simp only: v sum.case)
next
  assume a: "deref s r = Some R \<and> pattern R = [] \<and> p \<noteq> [] \<and> hd p \<noteq> CHR ''/''"
  then have ne: "p \<noteq> ''/''" by auto
  from a have "validatePattern p = Inl (PathMustStart p)" by (simp add: validatePattern_eq)
  with a ne show "Group s r p mws = Inl (PathMustStart p)"
    using Group_eq[of s r R p mws] by simp
next
  assume "p \<noteq> [] \<and> hd p = CHR ''/''"
  then show "validatePattern p = Inr ()" by (simp add: validatePattern_eq)
next
  assume "p \<noteq> [] \<and> hd p = CHR ''/''"
  then show "prevalidation method p =
          (if isInStringSlice allowedHTTPMethods method then Inr () else Inl (InvalidHTTPMethod method))"
    by (cases p) (simp_all add: prevalidation_def)
next
  assume "p = [] \<or> hd p \<noteq> CHR ''/''"
  then show "prevalidation method p = Inl (PathMustBegin p)"
    by (cases p) (simp_all add: prevalidation_def)
qed

theorem pattern_validation_witness:
  "Handle (the_store (run_script empty_store [CallNew []])) 0 ''GET'' ''users'' (emit ''H'')
     = Some (Inl (PathMustStart ''users''))
   \<and> Group (the_store (run_script (empty_store :: string list store) [CallNew []])) 0 ''users'' []
     = Inl (PathMustStart ''users'')
   \<and> validatePattern ''/users'' = Inr ()
   \<and> prevalidation ''GET'' ''/users'' = Inr ()
   \<and> prevalidation ''GET'' '''' = Inl (PathMustBegin '''')"
proof -
  let ?sa = "the_store (run_script (empty_store :: string list store) [CallNew []])"
  have "0 < length (routers ?sa)" by code_simp
  then have d: "deref ?sa 0 = Some (routers ?sa ! 0)" by (simp only: deref_def if_True)
  have p: "pattern (routers ?sa ! 0) = []" by code_simp
  have a: "isInStringSlice allowedHTTPMethods ''GET''" by code_simp
  note bad = pattern_validation[of "''users''" ?sa 0 "''GET''" "emit ''H''" "routers ?sa ! 0" "''users''" "[]"]
  note good = pattern_validation[of "''/users''" ?sa 0 "''GET''" "emit ''H''" "routers ?sa ! 0" "''/users''" "[]"]
  note empty = pattern_validation[of "''''" ?sa 0 "''GET''" "emit ''H''" "routers ?sa ! 0" "''''" "[]"]
  have 1: "Handle ?sa 0 ''GET'' ''users'' (emit ''H'') = Some (Inl (PathMustStart ''users''))"
    using bad by simp
  have 2: "Group ?sa 0 ''users'' [] = Inl (PathMustStart ''users'')"
    using bad d p by simp
  have 3: "validatePattern ''/users'' = Inr ()" using good by simp
  have 4: "prevalidation ''GET'' ''/users'' = Inr ()" using good a by simp
  have 5: "prevalidation ''GET'' '''' = Inl (PathMustBegin '''')" using empty by simp
  from 1 2 3 4 5 show ?thesis by blast
qed

text \<open>
  C8 as stated fails for patterns that do not start with '/': the empty pattern passes
  validatePattern, grouping with it succeeds, and registering it on the group /a succeeds
  and registers /a; grouping with "b" under the group /a succeeds with the pattern /ab.
\<close>

theorem pattern_without_slash_counterexample:
  "validatePattern '''' = Inr ()
   \<and> observe patterns (run_script (empty_store :: string list store)
        [CallNew [], CallGroup 0 '''' []]) = Some (Inr ['''', ''''])
   \<and> observe (routes 0) (run_script empty_store
        [CallNew [], CallGroup 0 ''/a'' [], CallHandle 1 ''GET'' '''' (emit ''H'')])
      = Some (Inr [([''GET''], ''/a'', [''H''])])
   \<and> observe patterns (run_script (empty_store :: string list store)
        [CallNew [], CallGroup 0 ''/a'' [], CallGroup 1 ''b'' []]) = Some (Inr ['''', ''/a'', ''/ab''])"
  by code_simp

end
